theory Spec2Isabelle
  imports Main "HOL-Library.Sublist"
begin

section \<open>Body ranges of \<open>ts/types/BodyRange.ts\<close>\<close>

text \<open>
  Offsets and lengths are JavaScript numbers that hold integers (they come from the
  \<open>int32\<close> fields of the wire message), so they are modelled as \<open>int\<close>. Text is a
  sequence of code units; \<open>string\<close> stands for it, and no proof below depends on the
  alphabet.
\<close>

subsection \<open>Data model\<close>

text \<open>\<open>Proto.DataMessage.BodyRange.Style\<close>, the closed set destructured at line 140.\<close>

datatype Style = NONE | BOLD | ITALIC | SPOILER | STRIKETHROUGH | MONOSPACE

datatype DisplayStyle = SearchKeywordHighlight

text \<open>
  The four kinds a range node can carry: \<open>HydratedMention\<close> (\<open>mentionUuid\<close>,
  \<open>conversationID\<close>, \<open>replacementText\<close>), \<open>BodyRange.Link\<close> (\<open>url\<close>),
  \<open>BodyRange.Formatting\<close> (\<open>style\<close>, optional \<open>spoilerId\<close>) and
  \<open>BodyRange.DisplayOnly\<close> (\<open>displayStyle\<close>).
\<close>

datatype Kind =
    Mention (mentionUuid: string) (conversationID: string) (replacementText: string)
  | Link string
  | Formatting Style "int option"
  | DisplayOnly DisplayStyle

text \<open>\<open>BodyRange<T>\<close>: \<open>start\<close>, \<open>length\<close> (here \<open>len\<close>) and the fields of the kind.\<close>

datatype BodyRange = BodyRange (start: int) (len: int) (kind: Kind)

text \<open>
  \<open>RangeNode\<close>: a body range together with its nested \<open>ranges\<close>, whose starts are
  relative to the start of the containing node.
\<close>

datatype RangeNode = RangeNode (body: BodyRange) (ranges: "RangeNode list")

datatype error = UnhandledRange | MissingCase | AssertionFailed

text \<open>\<open>BodyRange.isMention\<close>: the key \<open>mentionUuid\<close> is present.\<close>

fun isMention :: "BodyRange \<Rightarrow> bool" where
  "isMention (BodyRange s l (Mention u c t)) = True"
| "isMention (BodyRange s l k) = False"

subsection \<open>Range Tree Builder: \<open>insertRange\<close>\<close>

text \<open>
  The source destructures \<open>[current, ...rest]\<close> and tests its six cases in order, each
  returning; falling through all of them is the \<open>unhandled range\<close> throw.
\<close>

lemma size_ranges [termination_simp]:
  "size_list size (ranges current) < Suc (size current + size_list size rest)"
  by (cases current) simp

fun insertRange :: "BodyRange \<Rightarrow> RangeNode list \<Rightarrow> error + RangeNode list" where
  "insertRange rng [] = Inr [RangeNode rng []]"
| "insertRange rng (current # rest) =
    (let rangeEnd = start rng + len rng;
         currentEnd = start (body current) + len (body current)
     in
       \<comment> \<open>ends before current starts\<close>
       if rangeEnd \<le> start (body current) then
         Inr (RangeNode rng [] # current # rest)
       \<comment> \<open>starts after current one ends\<close>
       else if start rng \<ge> currentEnd then
         (case insertRange rng rest of
            Inl e \<Rightarrow> Inl e
          | Inr rest' \<Rightarrow> Inr (current # rest'))
       \<comment> \<open>range is contained by first\<close>
       else if start rng \<ge> start (body current) \<and> rangeEnd \<le> currentEnd then
         (case insertRange
                 (BodyRange (start rng - start (body current)) (len rng) (kind rng))
                 (ranges current) of
            Inl e \<Rightarrow> Inl e
          | Inr inner \<Rightarrow> Inr (RangeNode (body current) inner # rest))
       \<comment> \<open>range contains first (but might contain more): split range into 3\<close>
       else if start rng < start (body current) \<and> rangeEnd > currentEnd then
         (case insertRange
                 (BodyRange 0 (len (body current)) (kind rng))
                 (ranges current) of
            Inl e \<Rightarrow> Inl e
          | Inr inner \<Rightarrow>
              (case insertRange
                      (BodyRange currentEnd (rangeEnd - currentEnd) (kind rng))
                      rest of
                 Inl e \<Rightarrow> Inl e
               | Inr rest' \<Rightarrow>
                   Inr (RangeNode
                          (BodyRange (start rng) (start (body current) - start rng) (kind rng))
                          []
                        # RangeNode (body current) inner
                        # rest')))
       \<comment> \<open>range intersects beginning: split range into 2\<close>
       else if start rng < start (body current) \<and> rangeEnd \<le> currentEnd then
         (case insertRange
                 (BodyRange 0 (len rng - (start (body current) - start rng)) (kind rng))
                 (ranges current) of
            Inl e \<Rightarrow> Inl e
          | Inr inner \<Rightarrow>
              Inr (RangeNode
                     (BodyRange (start rng) (start (body current) - start rng) (kind rng))
                     []
                   # RangeNode (body current) inner
                   # rest))
       \<comment> \<open>range intersects ending: split range into 2\<close>
       else if start rng \<ge> start (body current) \<and> rangeEnd > currentEnd then
         (case insertRange
                 (BodyRange (start rng - start (body current)) (currentEnd - start rng)
                    (kind rng))
                 (ranges current) of
            Inl e \<Rightarrow> Inl e
          | Inr inner \<Rightarrow>
              (case insertRange
                      (BodyRange currentEnd (len rng - (currentEnd - start rng)) (kind rng))
                      rest of
                 Inl e \<Rightarrow> Inl e
               | Inr rest' \<Rightarrow> Inr (RangeNode (body current) inner # rest')))
       else Inl UnhandledRange)"

text \<open>The end of a node: \<open>current.start + current.length\<close>.\<close>

abbreviation endOf :: "RangeNode \<Rightarrow> int" where
  "endOf n \<equiv> start (body n) + len (body n)"

text \<open>
  The branch of \<open>insertRange\<close> that a range and the head node select: the guards of
  the source, in the order the source tests them. A later guard is reached only when
  every earlier one has failed.
\<close>

datatype InsertCase =
  EndsBefore | StartsAfter | Contained | Contains | IntersectsBeginning | IntersectsEnding
  | Unhandled

definition insertCase :: "BodyRange \<Rightarrow> RangeNode \<Rightarrow> InsertCase" where
  "insertCase rng current =
    (let rangeEnd = start rng + len rng;
         currentEnd = start (body current) + len (body current)
     in
       if rangeEnd \<le> start (body current) then EndsBefore
       else if start rng \<ge> currentEnd then StartsAfter
       else if start rng \<ge> start (body current) \<and> rangeEnd \<le> currentEnd then Contained
       else if start rng < start (body current) \<and> rangeEnd > currentEnd then Contains
       else if start rng < start (body current) \<and> rangeEnd \<le> currentEnd then
         IntersectsBeginning
       else if start rng \<ge> start (body current) \<and> rangeEnd > currentEnd then
         IntersectsEnding
       else Unhandled)"

subsection \<open>Well-formed forests\<close>

text \<open>
  Siblings are sorted ascending by start and pairwise non-overlapping (a node ends at or
  before the start of every later sibling); a node has a non-negative start and length,
  as every range of the data model, and each of its children lies within its span
  \<open>[0, length]\<close> in the node's own coordinates.
\<close>

definition siblingsOrdered :: "RangeNode list \<Rightarrow> bool" where
  "siblingsOrdered ts =
     sorted_wrt (\<lambda>a b. start (body a) \<le> start (body b) \<and> endOf a \<le> start (body b)) ts"

fun wellFormed :: "RangeNode \<Rightarrow> bool" where
  "wellFormed (RangeNode b rs) =
     (0 \<le> start b \<and> 0 \<le> len b \<and> siblingsOrdered rs \<and>
      list_all (\<lambda>c. endOf c \<le> len b) rs \<and> list_all wellFormed rs)"

definition wellFormedForest :: "RangeNode list \<Rightarrow> bool" where
  "wellFormedForest ts = (siblingsOrdered ts \<and> list_all wellFormed ts)"

text \<open>
  The same invariant, told along the recursion of \<open>insertRange\<close>: every node of the
  list starts at or after \<open>lo\<close> and ends at or before \<open>hi\<close>.
\<close>

fun within :: "int \<Rightarrow> int \<Rightarrow> RangeNode list \<Rightarrow> bool" where
  "within lo hi [] = True"
| "within lo hi (c # rest) =
     (lo \<le> start (body c) \<and> 0 \<le> len (body c) \<and> endOf c \<le> hi \<and>
      within 0 (len (body c)) (ranges c) \<and> within (endOf c) hi rest)"


subsection \<open>Tree Collapser: \<open>collapseRangeTree\<close>\<close>

text \<open>
  \<open>String.prototype.slice(a, b)\<close>: a negative index counts from the end, both indices
  are clamped to the string, and the result is empty when the first is not before the
  second.
\<close>

definition jsSlice :: "'a list \<Rightarrow> int \<Rightarrow> int \<Rightarrow> 'a list" where
  "jsSlice s a b =
     (let n = int (length s);
          from = (if a < 0 then max (n + a) 0 else min a n);
          to = (if b < 0 then max (n + b) 0 else min b n)
      in take (nat (to - from)) (drop (nat from) s))"

text \<open>
  \<open>PartialDisplayNode\<close>: the optional formatting keys of a \<open>DisplayNode\<close>. \<open>None\<close> is
  an absent key. \<open>spoilerId\<close> is present with the value \<open>undefined\<close> (\<open>Some None\<close>) when a
  spoiler range without an id sets it. (\<open>spoilerChildren\<close> is written by
  \<open>groupContiguousSpoilers\<close> only and is left out.)
\<close>

record PartialDisplayNode =
  isBold :: "bool option"
  isItalic :: "bool option"
  isMonospace :: "bool option"
  isSpoiler :: "bool option"
  isStrikethrough :: "bool option"
  url :: "string option"
  isKeywordHighlight :: "bool option"
  spoilerId :: "int option option"

text \<open>
  \<open>DisplayNode\<close>: the formatting keys and \<open>text\<close>, \<open>start\<close>, \<open>length\<close> (here \<open>nodeText\<close>,
  \<open>nodeStart\<close>, \<open>nodeLength\<close>) and \<open>mentions\<close>.
\<close>

record DisplayNode = PartialDisplayNode +
  nodeText :: string
  nodeStart :: int
  nodeLength :: int
  mentions :: "BodyRange list"

text \<open>The object \<open>{}\<close>, which is also what spreading an absent \<open>parentData\<close> gives.\<close>

definition emptyObject :: PartialDisplayNode where
  "emptyObject =
     \<lparr>isBold = None, isItalic = None, isMonospace = None, isSpoiler = None,
      isStrikethrough = None, url = None, isKeywordHighlight = None, spoilerId = None\<rparr>"

text \<open>Object spread \<open>{ ...a, ...b }\<close>: a key of \<open>b\<close> replaces the same key of \<open>a\<close>.\<close>

definition override :: "'a option \<Rightarrow> 'a option \<Rightarrow> 'a option" where
  "override a b = (case b of None \<Rightarrow> a | Some v \<Rightarrow> Some v)"

definition spread :: "PartialDisplayNode \<Rightarrow> PartialDisplayNode \<Rightarrow> PartialDisplayNode" where
  "spread a b =
     \<lparr>isBold = override (isBold a) (isBold b),
      isItalic = override (isItalic a) (isItalic b),
      isMonospace = override (isMonospace a) (isMonospace b),
      isSpoiler = override (isSpoiler a) (isSpoiler b),
      isStrikethrough = override (isStrikethrough a) (isStrikethrough b),
      url = override (url a) (url b),
      isKeywordHighlight = override (isKeywordHighlight a) (isKeywordHighlight b),
      spoilerId = override (spoilerId a) (spoilerId b)\<rparr>"

text \<open>
  \<open>rangeToPartialNode\<close>. The source accepts link, formatting and display-only ranges; a
  range of another shape reaches \<open>throw missingCaseError(range)\<close>.
\<close>

fun rangeToPartialNode :: "BodyRange \<Rightarrow> error + PartialDisplayNode" where
  "rangeToPartialNode (BodyRange s l (Formatting BOLD sid)) =
     Inr (emptyObject\<lparr>isBold := Some True\<rparr>)"
| "rangeToPartialNode (BodyRange s l (Formatting ITALIC sid)) =
     Inr (emptyObject\<lparr>isItalic := Some True\<rparr>)"
| "rangeToPartialNode (BodyRange s l (Formatting MONOSPACE sid)) =
     Inr (emptyObject\<lparr>isMonospace := Some True\<rparr>)"
| "rangeToPartialNode (BodyRange s l (Formatting SPOILER sid)) =
     Inr (emptyObject\<lparr>isSpoiler := Some True, spoilerId := Some sid\<rparr>)"
| "rangeToPartialNode (BodyRange s l (Formatting STRIKETHROUGH sid)) =
     Inr (emptyObject\<lparr>isStrikethrough := Some True\<rparr>)"
| "rangeToPartialNode (BodyRange s l (Formatting NONE sid)) = Inr emptyObject"
| "rangeToPartialNode (BodyRange s l (Link u)) = Inr (emptyObject\<lparr>url := Some u\<rparr>)"
| "rangeToPartialNode (BodyRange s l (DisplayOnly SearchKeywordHighlight)) =
     Inr (emptyObject\<lparr>isKeywordHighlight := Some True\<rparr>)"
| "rangeToPartialNode (BodyRange s l (Mention u c t)) = Inl MissingCase"

text \<open>\<open>{ ...parentData, text, start, length, mentions }\<close>\<close>

definition displayNode ::
  "PartialDisplayNode \<Rightarrow> string \<Rightarrow> int \<Rightarrow> int \<Rightarrow> BodyRange list \<Rightarrow> DisplayNode" where
  "displayNode parentData t s l ms =
     PartialDisplayNode.extend parentData
       (DisplayNode.fields t s l ms)"

text \<open>
  \<open>collapseRangeTree\<close> with its \<open>tree.forEach\<close> loop. The loop carries the variables it
  assigns: \<open>collapsed\<close>, \<open>offset\<close> and the pending \<open>mentions\<close>. The optional
  \<open>parentData\<close> and \<open>parentOffset\<close> are passed as \<open>emptyObject\<close> and \<open>0\<close> by a caller that
  omits them.
\<close>

lemma size_ranges_twice:
  "2 * size_list size (ranges rng) < Suc (2 * size rng + n)"
  by (cases rng) simp

function collapseRangeTree ::
    "PartialDisplayNode \<Rightarrow> int \<Rightarrow> string \<Rightarrow> RangeNode list \<Rightarrow> error + DisplayNode list"
  and forEachRange ::
    "PartialDisplayNode \<Rightarrow> int \<Rightarrow> string \<Rightarrow> RangeNode list \<Rightarrow>
     DisplayNode list \<times> int \<times> BodyRange list \<Rightarrow>
     error + DisplayNode list \<times> int \<times> BodyRange list"
where
  "collapseRangeTree parentData parentOffset tx tree =
     (case forEachRange parentData parentOffset tx tree ([], 0, []) of
        Inl e \<Rightarrow> Inl e
      | Inr (collapsed, offset, pending) \<Rightarrow>
          \<comment> \<open>Empty space after the last range\<close>
          if int (length tx) > offset then
            Inr (collapsed @
                 [displayNode parentData (jsSlice tx offset (int (length tx)))
                    (offset + parentOffset) (int (length tx) - offset) pending])
          else Inr collapsed)"
| "forEachRange parentData parentOffset tx [] state = Inr state"
| "forEachRange parentData parentOffset tx (rng # rest) (collapsed, offset, pending) =
     (if isMention (body rng) then
        forEachRange parentData parentOffset tx rest
          (collapsed, offset,
           pending @
           [BodyRange (start (body rng) - offset) (len (body rng)) (kind (body rng))])
      else
        \<comment> \<open>Empty space between start of current\<close>
        (case (if start (body rng) > offset then
                 (collapsed @
                  [displayNode parentData (jsSlice tx offset (start (body rng)))
                     (offset + parentOffset) (start (body rng) - offset) pending],
                  [])
               else (collapsed, pending)) of
           (collapsed1, pending1) \<Rightarrow>
             \<comment> \<open>What sub-breaks can we make within this node?\<close>
             (case rangeToPartialNode (body rng) of
                Inl e \<Rightarrow> Inl e
              | Inr contribution \<Rightarrow>
                  (case collapseRangeTree (spread parentData contribution)
                          (start (body rng) + parentOffset)
                          (jsSlice tx (start (body rng)) (start (body rng) + len (body rng)))
                          (ranges rng) of
                     Inl e \<Rightarrow> Inl e
                   | Inr sub \<Rightarrow>
                       forEachRange parentData parentOffset tx rest
                         (collapsed1 @ sub, start (body rng) + len (body rng), pending1)))))"
  by pat_completeness auto
termination
  by (relation "measure (\<lambda>x. case x of
          Inl (pd, po, t, tree) \<Rightarrow> 2 * size_list size tree + 1
        | Inr (pd, po, t, tree, st) \<Rightarrow> 2 * size_list size tree)")
    (auto simp: size_ranges_twice)


text \<open>The same tree with the \<open>ranges\<close> of every mention node emptied.\<close>

fun clearMentionChildren :: "RangeNode \<Rightarrow> RangeNode" where
  "clearMentionChildren (RangeNode b rs) =
     (if isMention b then RangeNode b [] else RangeNode b (map clearMentionChildren rs))"

subsection \<open>Range Filter: \<open>filterAndClean\<close>\<close>

text \<open>
  \<open>Proto.DataMessage.IBodyRange\<close>: every field may be absent or null on the wire
  (\<open>None\<close>). The fields \<open>start\<close>, \<open>length\<close>, \<open>mentionUuid\<close> and \<open>style\<close> are named
  \<open>rawStart\<close>, \<open>rawLength\<close>, \<open>rawMentionUuid\<close> and \<open>rawStyle\<close>.
\<close>

record IBodyRange =
  rawStart :: "int option"
  rawLength :: "int option"
  rawMentionUuid :: "string option"
  rawStyle :: "Style option"

text \<open>lodash \<open>isNumber\<close> on a field that holds a number or is absent.\<close>

definition isNumber :: "int option \<Rightarrow> bool" where
  "isNumber v = (v \<noteq> None)"

text \<open>
  Modelled from the spec: the numeric values of the \<open>Style\<close> enum. The protobuf
  declaration (\<open>../protobuf\<close>) is not among the sources; section 6 of the specification
  gives \<open>enum(NONE=0, BOLD=1, ITALIC=2, STRIKETHROUGH=3, MONOSPACE=4, SPOILER=5)\<close>.
\<close>

fun styleValue :: "Style \<Rightarrow> nat" where
  "styleValue NONE = 0"
| "styleValue BOLD = 1"
| "styleValue ITALIC = 2"
| "styleValue STRIKETHROUGH = 3"
| "styleValue MONOSPACE = 4"
| "styleValue SPOILER = 5"

text \<open>
  JavaScript truthiness, as \<open>if (range.mentionUuid)\<close> and \<open>if (range.style)\<close> test it: an
  absent value, the empty string and the number \<open>0\<close> are falsy. \<open>truthyStyle\<close> returns the
  style when it is truthy.
\<close>

definition truthyString :: "string option \<Rightarrow> bool" where
  "truthyString v = (case v of None \<Rightarrow> False | Some s \<Rightarrow> s \<noteq> [])"

definition truthyStyle :: "Style option \<Rightarrow> Style option" where
  "truthyStyle v =
     (case v of None \<Rightarrow> None | Some s \<Rightarrow> if styleValue s \<noteq> 0 then Some s else None)"

text \<open>
  The keys of \<open>countByTypeRecord\<close>: \<open>MENTION_NAME\<close> and one key per style. Every counter
  starts at \<open>0\<close>.
\<close>

datatype CountKey = MENTION_NAME | StyleKey Style

definition MAX_PER_TYPE :: nat where
  "MAX_PER_TYPE = 250"

definition countByTypeRecord :: "CountKey \<Rightarrow> nat" where
  "countByTypeRecord = (\<lambda>k. 0)"

text \<open>
  The callback of \<open>ranges.filter\<close>, run over the input in order. It reads and writes the
  counters, so the loop passes them along; it returns the ranges kept and the warnings
  logged.
\<close>

fun filterRanges ::
  "(CountKey \<Rightarrow> nat) \<Rightarrow> IBodyRange list \<Rightarrow> IBodyRange list \<times> string list" where
  "filterRanges counts [] = ([], [])"
| "filterRanges counts (rng # rest) =
    (if \<not> isNumber (rawStart rng) then
       (case filterRanges counts rest of
          (kept, warnings) \<Rightarrow>
            (kept, ''filterAndClean: Dropping bodyRange with non-number start'' # warnings))
     else if \<not> isNumber (rawLength rng) then
       (case filterRanges counts rest of
          (kept, warnings) \<Rightarrow>
            (kept, ''filterAndClean: Dropping bodyRange with non-number length'' # warnings))
     else if truthyString (rawMentionUuid rng) then
       (let counts' = counts(MENTION_NAME := counts MENTION_NAME + 1) in
        if counts' MENTION_NAME > MAX_PER_TYPE then filterRanges counts' rest
        else (case filterRanges counts' rest of (kept, warnings) \<Rightarrow> (rng # kept, warnings)))
     else
       (case truthyStyle (rawStyle rng) of
          Some s \<Rightarrow>
            (let counts' = counts(StyleKey s := counts (StyleKey s) + 1) in
             if counts' (StyleKey s) > MAX_PER_TYPE then filterRanges counts' rest
             else (case filterRanges counts' rest of
                     (kept, warnings) \<Rightarrow> (rng # kept, warnings)))
        | None \<Rightarrow>
            (case filterRanges counts rest of
               (kept, warnings) \<Rightarrow>
                 (kept, ''filterAndClean: Dropping unknown bodyRange'' # warnings))))"

text \<open>
  \<open>filterAndClean\<close>: \<open>undefined\<close> for an absent input, otherwise a shallow copy of every
  range the filter keeps.
\<close>

definition filterAndClean :: "IBodyRange list option \<Rightarrow> IBodyRange list option" where
  "filterAndClean rngs =
     (case rngs of
        None \<Rightarrow> None
      | Some rs \<Rightarrow> Some (map (\<lambda>rng. rng) (fst (filterRanges countByTypeRecord rs))))"

text \<open>
  The two categories of the cap example, as the filter classifies them: a mention has
  numeric \<open>start\<close> and \<open>length\<close> and a truthy \<open>mentionUuid\<close>; a BOLD range has numeric
  \<open>start\<close> and \<open>length\<close>, no truthy \<open>mentionUuid\<close> and the style BOLD.
\<close>

definition isMentionRange :: "IBodyRange \<Rightarrow> bool" where
  "isMentionRange r =
     (isNumber (rawStart r) \<and> isNumber (rawLength r) \<and> truthyString (rawMentionUuid r))"

definition isBoldRange :: "IBodyRange \<Rightarrow> bool" where
  "isBoldRange r =
     (isNumber (rawStart r) \<and> isNumber (rawLength r) \<and> \<not> truthyString (rawMentionUuid r) \<and>
      rawStyle r = Some BOLD)"

text \<open>The ranges the filter keeps, without the warnings.\<close>

definition keptRanges :: "(CountKey \<Rightarrow> nat) \<Rightarrow> IBodyRange list \<Rightarrow> IBodyRange list" where
  "keptRanges counts rs = fst (filterRanges counts rs)"

subsection \<open>Text Range Applier: \<open>applyRangesForText\<close>\<close>

text \<open>
  \<open>SPOILER_REPLACEMENT\<close> is four code units U+25A0. That code unit is outside \<open>char\<close>;
  the character \<open>0xA0\<close> stands for it. Only its length enters the offsets.
\<close>

definition SPOILER_REPLACEMENT :: string where
  "SPOILER_REPLACEMENT = replicate 4 (CHR 0xA0)"

text \<open>\<open>String.prototype.slice(a)\<close>: to the end of the string.\<close>

definition jsSliceFrom :: "'a list \<Rightarrow> int \<Rightarrow> 'a list" where
  "jsSliceFrom s a = jsSlice s a (int (length s))"

text \<open>
  \<open>sort((a, b) => b.start - a.start)\<close>: descending by start; the sort of the language is
  stable, as \<open>sort_key\<close> is.
\<close>

definition sortByStartDescending :: "BodyRange list \<Rightarrow> BodyRange list" where
  "sortByStartDescending rs = sort_key (\<lambda>r. - start r) rs"

text \<open>
  \<open>replacementText\<close> as the template literal prints it: a range that has none prints
  \<open>undefined\<close>.
\<close>

fun replacementTextOf :: "BodyRange \<Rightarrow> string" where
  "replacementTextOf (BodyRange s l (Mention u c t)) = t"
| "replacementTextOf (BodyRange s l k) = ''undefined''"

text \<open>
  The callback of the reduce over the spoilers. It also reassigns \<open>sortableMentions\<close>, so
  the accumulator carries the text and the mentions.
\<close>

definition applySpoiler ::
  "string \<times> BodyRange list \<Rightarrow> BodyRange \<Rightarrow> string \<times> BodyRange list" where
  "applySpoiler state spoiler =
     (case state of
        (acc, sortableMentions) \<Rightarrow>
          (let left = jsSlice acc 0 (start spoiler);
               end = start spoiler + len spoiler;
               right = jsSliceFrom acc end;
               sortableMentions' =
                 map (\<lambda>mention.
                        if start mention \<ge> end then
                          BodyRange
                            (start mention - (len spoiler - int (length SPOILER_REPLACEMENT)))
                            (len mention) (kind mention)
                        else mention)
                   (filter (\<lambda>mention. start mention < start spoiler \<or> start mention \<ge> end)
                      sortableMentions)
           in (left @ SPOILER_REPLACEMENT @ right, sortableMentions')))"

text \<open>The callback of the reduce over the mentions.\<close>

definition applyMention :: "string \<Rightarrow> BodyRange \<Rightarrow> string" where
  "applyMention acc mention =
     (let left = jsSlice acc 0 (start mention);
          right = jsSliceFrom acc (start mention + len mention)
      in left @ ''@'' @ replacementTextOf mention @ right)"

text \<open>
  \<open>applyRangesForText\<close>: a falsy text (absent or empty) is returned as it is.
\<close>

definition applyRangesForText ::
  "string option \<Rightarrow> BodyRange list \<Rightarrow> BodyRange list \<Rightarrow> string option" where
  "applyRangesForText tx mentionRanges spoilers =
     (case tx of
        None \<Rightarrow> None
      | Some t \<Rightarrow>
          if t = [] then Some t
          else
            (case foldl applySpoiler (t, mentionRanges) (sortByStartDescending spoilers) of
               (updatedText, sortableMentions) \<Rightarrow>
                 Some (foldl applyMention updatedText
                         (sortByStartDescending sortableMentions))))"

subsection \<open>Snippet Range Mapper: \<open>processBodyRangesForSearchResult\<close>\<close>




















subsection \<open>Coverage of a forest\<close>

text \<open>
  \<open>covered k p forest\<close>: some node of the forest, at any depth, carries the kind \<open>k\<close>
  and spans the position \<open>p\<close>. Children are in their parent's coordinates, so the
  position is rebased by the parent's start on the way down.
\<close>

fun covered :: "Kind \<Rightarrow> int \<Rightarrow> RangeNode list \<Rightarrow> bool" where
  "covered k p [] = False"
| "covered k p (n # ns) =
     ((kind (body n) = k \<and> start (body n) \<le> p \<and> p < endOf n) \<or>
      covered k (p - start (body n)) (ranges n) \<or>
      covered k p ns)"

text \<open>Ranges inserted one at a time, each into the forest the previous one returned.\<close>

fun insertRanges :: "BodyRange list \<Rightarrow> RangeNode list \<Rightarrow> error + RangeNode list" where
  "insertRanges [] rangeTree = Inr rangeTree"
| "insertRanges (rng # rngs) rangeTree =
     (case insertRange rng rangeTree of
        Inl e \<Rightarrow> Inl e
      | Inr rangeTree' \<Rightarrow> insertRanges rngs rangeTree')"

section \<open>Properties of the Range Tree Builder\<close>

lemma insertCase_cases:
  "insertCase r c = EndsBefore \<longleftrightarrow> start r + len r \<le> start (body c)"
  "insertCase r c = StartsAfter \<longleftrightarrow> \<not> start r + len r \<le> start (body c) \<and> endOf c \<le> start r"
  "insertCase r c = Contained \<longleftrightarrow> \<not> start r + len r \<le> start (body c) \<and> \<not> endOf c \<le> start r
      \<and> start (body c) \<le> start r \<and> start r + len r \<le> endOf c"
  "insertCase r c = Contains \<longleftrightarrow> \<not> start r + len r \<le> start (body c) \<and> \<not> endOf c \<le> start r
      \<and> start r < start (body c) \<and> endOf c < start r + len r"
  "insertCase r c = IntersectsBeginning \<longleftrightarrow> \<not> start r + len r \<le> start (body c) \<and> \<not> endOf c \<le> start r
      \<and> start r < start (body c) \<and> start r + len r \<le> endOf c"
  "insertCase r c = IntersectsEnding \<longleftrightarrow> \<not> start r + len r \<le> start (body c) \<and> \<not> endOf c \<le> start r
      \<and> start (body c) \<le> start r \<and> endOf c < start r + len r"
  "insertCase r c \<noteq> Unhandled"
  by (auto simp: insertCase_def Let_def)

lemma insertRange_EndsBefore:
  "insertCase r c = EndsBefore \<Longrightarrow> insertRange r (c # rest) = Inr (RangeNode r [] # c # rest)"
  by (simp add: insertCase_cases Let_def)

lemma insertRange_StartsAfter:
  "insertCase r c = StartsAfter \<Longrightarrow> insertRange r (c # rest) =
     (case insertRange r rest of Inl e \<Rightarrow> Inl e | Inr rest' \<Rightarrow> Inr (c # rest'))"
  by (simp add: insertCase_cases Let_def)

lemma insertRange_Contained:
  "insertCase r c = Contained \<Longrightarrow> insertRange r (c # rest) =
     (case insertRange (BodyRange (start r - start (body c)) (len r) (kind r)) (ranges c) of
        Inl e \<Rightarrow> Inl e | Inr inner \<Rightarrow> Inr (RangeNode (body c) inner # rest))"
  by (simp add: insertCase_cases Let_def)

lemma insertRange_Contains:
  "insertCase r c = Contains \<Longrightarrow> insertRange r (c # rest) =
     (case insertRange (BodyRange 0 (len (body c)) (kind r)) (ranges c) of
        Inl e \<Rightarrow> Inl e
      | Inr inner \<Rightarrow>
         (case insertRange (BodyRange (endOf c) (start r + len r - endOf c) (kind r)) rest of
            Inl e \<Rightarrow> Inl e
          | Inr rest' \<Rightarrow>
              Inr (RangeNode (BodyRange (start r) (start (body c) - start r) (kind r)) []
                   # RangeNode (body c) inner # rest')))"
  by (simp add: insertCase_cases Let_def)

lemma insertRange_IntersectsBeginning:
  "insertCase r c = IntersectsBeginning \<Longrightarrow> insertRange r (c # rest) =
     (case insertRange (BodyRange 0 (len r - (start (body c) - start r)) (kind r)) (ranges c) of
        Inl e \<Rightarrow> Inl e
      | Inr inner \<Rightarrow>
          Inr (RangeNode (BodyRange (start r) (start (body c) - start r) (kind r)) []
               # RangeNode (body c) inner # rest))"
  by (simp add: insertCase_cases Let_def)

lemma insertRange_IntersectsEnding:
  "insertCase r c = IntersectsEnding \<Longrightarrow> insertRange r (c # rest) =
     (case insertRange (BodyRange (start r - start (body c)) (endOf c - start r) (kind r))
             (ranges c) of
        Inl e \<Rightarrow> Inl e
      | Inr inner \<Rightarrow>
         (case insertRange (BodyRange (endOf c) (len r - (endOf c - start r)) (kind r)) rest of
            Inl e \<Rightarrow> Inl e
          | Inr rest' \<Rightarrow> Inr (RangeNode (body c) inner # rest')))"
  by (simp add: insertCase_cases Let_def)


declare insertRange.simps(2) [simp del]

lemmas insertRange_case_simps =
  insertRange_EndsBefore insertRange_StartsAfter insertRange_Contained
  insertRange_Contains insertRange_IntersectsBeginning insertRange_IntersectsEnding

lemma insertRange_induct [case_names Nil EndsBefore StartsAfter Contained Contains IntersectsBeginning IntersectsEnding]:
  assumes "\<And>r. P r []"
    and "\<And>r c rest. insertCase r c = EndsBefore \<Longrightarrow> P r (c # rest)"
    and "\<And>r c rest. insertCase r c = StartsAfter \<Longrightarrow> P r rest \<Longrightarrow> P r (c # rest)"
    and "\<And>r c rest. insertCase r c = Contained \<Longrightarrow>
           P (BodyRange (start r - start (body c)) (len r) (kind r)) (ranges c) \<Longrightarrow>
           P r (c # rest)"
    and "\<And>r c rest. insertCase r c = Contains \<Longrightarrow>
           P (BodyRange 0 (len (body c)) (kind r)) (ranges c) \<Longrightarrow>
           P (BodyRange (endOf c) (start r + len r - endOf c) (kind r)) rest \<Longrightarrow>
           P r (c # rest)"
    and "\<And>r c rest. insertCase r c = IntersectsBeginning \<Longrightarrow>
           P (BodyRange 0 (len r - (start (body c) - start r)) (kind r)) (ranges c) \<Longrightarrow>
           P r (c # rest)"
    and "\<And>r c rest. insertCase r c = IntersectsEnding \<Longrightarrow>
           P (BodyRange (start r - start (body c)) (endOf c - start r) (kind r)) (ranges c) \<Longrightarrow>
           P (BodyRange (endOf c) (len r - (endOf c - start r)) (kind r)) rest \<Longrightarrow>
           P r (c # rest)"
  shows "P r t"
proof (induction t arbitrary: r rule: measure_induct_rule [where f = "size_list size"])
  case (less t)
  show ?case
  proof (cases t)
    case Nil
    then show ?thesis by (simp add: assms(1))
  next
    case (Cons c rest)
    have inner: "P r' (ranges c)" for r'
      using less.IH [of "ranges c"] Cons size_ranges [of c rest] by simp
    have outer: "P r' rest" for r'
      using less.IH [of rest] Cons by simp
    show ?thesis
      unfolding Cons
      by (cases "insertCase r c")
        (simp_all add: assms(2-7) inner outer insertCase_cases(7))
  qed
qed

lemma insertRange_total: "\<exists>ts. insertRange r t = Inr ts"
  by (induction r t rule: insertRange_induct)
    (auto simp: insertRange_case_simps)



lemma wellFormed_sel:
  "wellFormed c =
     (0 \<le> start (body c) \<and> 0 \<le> len (body c) \<and> siblingsOrdered (ranges c) \<and>
      list_all (\<lambda>ch. endOf ch \<le> len (body c)) (ranges c) \<and> list_all wellFormed (ranges c))"
  by (cases c) simp

lemma wellFormed_start: "wellFormed c \<Longrightarrow> 0 \<le> start (body c)"
  by (cases c) simp

lemma siblingsOrdered_Cons:
  "siblingsOrdered (c # rest) \<longleftrightarrow>
     (\<forall>x \<in> set rest. start (body c) \<le> start (body x) \<and> endOf c \<le> start (body x)) \<and>
     siblingsOrdered rest"
  by (simp add: siblingsOrdered_def)

lemma within_wellFormed:
  "within lo hi t \<Longrightarrow> 0 \<le> lo \<Longrightarrow>
     siblingsOrdered t \<and> list_all wellFormed t \<and>
     (\<forall>c \<in> set t. lo \<le> start (body c) \<and> endOf c \<le> hi)"
proof (induction lo hi t rule: within.induct)
  case (1 lo hi)
  show ?case by (simp add: siblingsOrdered_def)
next
  case (2 lo hi c rest)
  from "2.prems" have a: "lo \<le> start (body c)" and b: "0 \<le> len (body c)"
    and e: "endOf c \<le> hi" and inner: "within 0 (len (body c)) (ranges c)"
    and outer: "within (endOf c) hi rest" and lo: "0 \<le> lo"
    by simp_all
  from "2.IH"(1) [OF inner] have i: "siblingsOrdered (ranges c)"
    "list_all wellFormed (ranges c)" "\<forall>ch \<in> set (ranges c). endOf ch \<le> len (body c)"
    by simp_all
  from a b lo have "0 \<le> endOf c" by linarith
  from "2.IH"(2) [OF outer this] have o: "siblingsOrdered rest" "list_all wellFormed rest"
    "\<forall>x \<in> set rest. endOf c \<le> start (body x) \<and> endOf x \<le> hi"
    by simp_all
  have wc: "wellFormed c"
    using a b lo i by (subst wellFormed_sel) (simp add: list_all_iff)
  have ord: "siblingsOrdered (c # rest)"
    using o b by (subst siblingsOrdered_Cons) fastforce
  have bnd: "\<forall>x \<in> set rest. lo \<le> start (body x)"
    using o(3) a b by fastforce
  show ?case using wc ord o e a bnd by simp
qed

lemma wellFormed_within:
  "siblingsOrdered t \<Longrightarrow> list_all wellFormed t \<Longrightarrow>
   \<forall>c \<in> set t. lo \<le> start (body c) \<and> endOf c \<le> hi \<Longrightarrow> within lo hi t"
proof (induction lo hi t rule: within.induct)
  case (1 lo hi)
  show ?case by simp
next
  case (2 lo hi c rest)
  from "2.prems"(2) have wc: "wellFormed c" and wr: "list_all wellFormed rest" by simp_all
  from wc have c: "0 \<le> start (body c)" "0 \<le> len (body c)" "siblingsOrdered (ranges c)"
    "list_all (\<lambda>ch. endOf ch \<le> len (body c)) (ranges c)" "list_all wellFormed (ranges c)"
    by (simp_all add: wellFormed_sel [of c])
  have "\<forall>ch \<in> set (ranges c). 0 \<le> start (body ch)"
    using c(5) by (auto simp: list_all_iff wellFormed_start)
  with c(4) have "\<forall>ch \<in> set (ranges c). 0 \<le> start (body ch) \<and> endOf ch \<le> len (body c)"
    by (simp add: list_all_iff)
  from "2.IH"(1) [OF c(3) c(5) this] have inner: "within 0 (len (body c)) (ranges c)" .
  from "2.prems"(1) have ord: "siblingsOrdered rest"
    and sep: "\<forall>x \<in> set rest. endOf c \<le> start (body x)"
    by (simp_all add: siblingsOrdered_Cons)
  from sep "2.prems"(3) have "\<forall>x \<in> set rest. endOf c \<le> start (body x) \<and> endOf x \<le> hi"
    by simp
  from "2.IH"(2) [OF ord wr this] have outer: "within (endOf c) hi rest" .
  show ?case using inner outer c(2) "2.prems"(3) by simp
qed

lemma within_insertRange:
  "within lo hi t \<Longrightarrow> lo \<le> start r \<Longrightarrow> 0 \<le> len r \<Longrightarrow> start r + len r \<le> hi \<Longrightarrow>
   \<exists>t'. insertRange r t = Inr t' \<and> within lo hi t'"
proof (induction r t arbitrary: lo hi rule: insertRange_induct)
  case (Nil r)
  then show ?case by simp
next
  case (EndsBefore r c rest)
  then show ?case by (simp add: insertRange_EndsBefore insertCase_cases)
next
  case (StartsAfter r c rest)
  from StartsAfter.IH [of "endOf c" hi] StartsAfter.prems StartsAfter.hyps
  show ?case by (auto simp: insertRange_StartsAfter insertCase_cases)
next
  case (Contained r c rest)
  from Contained.IH [of 0 "len (body c)"] Contained.prems Contained.hyps
  show ?case by (auto simp: insertRange_Contained insertCase_cases)
next
  case (Contains r c rest)
  from Contains.IH(1) [of 0 "len (body c)"] Contains.IH(2) [of "endOf c" hi]
    Contains.prems Contains.hyps
  show ?case by (auto simp: insertRange_Contains insertCase_cases)
next
  case (IntersectsBeginning r c rest)
  from IntersectsBeginning.IH [of 0 "len (body c)"] IntersectsBeginning.prems
    IntersectsBeginning.hyps
  show ?case by (auto simp: insertRange_IntersectsBeginning insertCase_cases)
next
  case (IntersectsEnding r c rest)
  from IntersectsEnding.IH(1) [of 0 "len (body c)"] IntersectsEnding.IH(2) [of "endOf c" hi]
    IntersectsEnding.prems IntersectsEnding.hyps
  show ?case by (auto simp: insertRange_IntersectsEnding insertCase_cases)
qed

lemma ends_bounded: "\<exists>hi::int. \<forall>c \<in> set t. f c \<le> hi"
proof (induction t)
  case Nil
  show ?case by simp
next
  case (Cons a t)
  then obtain hi where "\<forall>c \<in> set t. f c \<le> hi" by blast
  then have "\<forall>c \<in> set (a # t). f c \<le> max hi (f a)" by auto
  then show ?case by blast
qed

lemma insertRange_wellFormedForest:
  assumes "wellFormedForest t" "0 \<le> start r" "0 \<le> len r"
  shows "\<exists>t'. insertRange r t = Inr t' \<and> wellFormedForest t'"
proof -
  obtain h where h: "\<forall>c \<in> set t. endOf c \<le> h" using ends_bounded [of t endOf] by blast
  define hi where "hi = max h (start r + len r)"
  have starts: "\<forall>c \<in> set t. 0 \<le> start (body c)"
    using assms(1) by (auto simp: wellFormedForest_def list_all_iff wellFormed_start)
  have "within 0 hi t"
    using assms(1) h starts
    by (intro wellFormed_within) (auto simp: wellFormedForest_def hi_def)
  from within_insertRange [OF this, of r] assms(2,3)
  obtain t' where "insertRange r t = Inr t'" "within 0 hi t'" by (auto simp: hi_def)
  then show ?thesis using within_wellFormed [of 0 hi t'] by (auto simp: wellFormedForest_def)
qed

lemma covered_insertRange_new:
  "insertRange r t = Inr t' \<Longrightarrow> start r \<le> p \<Longrightarrow> p < start r + len r \<Longrightarrow>
   covered (kind r) p t'"
proof (induction r t arbitrary: t' p rule: insertRange_induct)
  case (Nil r)
  then show ?case by auto
next
  case (EndsBefore r c rest)
  then show ?case by (auto simp: insertRange_EndsBefore)
next
  case (StartsAfter r c rest)
  then show ?case by (auto simp: insertRange_StartsAfter split: sum.splits)
next
  case (Contained r c rest)
  from Contained.prems Contained.hyps Contained.IH [of _ "p - start (body c)"]
  show ?case by (auto simp: insertRange_Contained split: sum.splits)
next
  case (Contains r c rest)
  from Contains.prems Contains.hyps obtain inner rest' where
    i: "insertRange (BodyRange 0 (len (body c)) (kind r)) (ranges c) = Inr inner" and
    o: "insertRange (BodyRange (endOf c) (start r + len r - endOf c) (kind r)) rest = Inr rest'" and
    t': "t' = RangeNode (BodyRange (start r) (start (body c) - start r) (kind r)) []
                   # RangeNode (body c) inner # rest'"
    by (auto simp: insertRange_Contains split: sum.splits)
  consider "p < start (body c)" | "start (body c) \<le> p" "p < endOf c" | "endOf c \<le> p" "start (body c) \<le> p"
    by linarith
  then show ?case
  proof cases
    case 1
    then show ?thesis using Contains.prems t' by simp
  next
    case 2
    then show ?thesis using Contains.IH(1) [OF i, of "p - start (body c)"] t' by simp
  next
    case 3
    then show ?thesis using Contains.IH(2) [OF o, of p] Contains.prems t' by simp
  qed
next
  case (IntersectsBeginning r c rest)
  from IntersectsBeginning.prems IntersectsBeginning.hyps obtain inner where
    i: "insertRange (BodyRange 0 (len r - (start (body c) - start r)) (kind r)) (ranges c) = Inr inner" and
    t': "t' = RangeNode (BodyRange (start r) (start (body c) - start r) (kind r)) []
                   # RangeNode (body c) inner # rest"
    by (auto simp: insertRange_IntersectsBeginning split: sum.splits)
  show ?case
  proof (cases "p < start (body c)")
    case True
    then show ?thesis using IntersectsBeginning.prems t' by simp
  next
    case False
    then show ?thesis
      using IntersectsBeginning.IH [OF i, of "p - start (body c)"] IntersectsBeginning.prems t'
      by simp
  qed
next
  case (IntersectsEnding r c rest)
  from IntersectsEnding.prems IntersectsEnding.hyps obtain inner rest' where
    i: "insertRange (BodyRange (start r - start (body c)) (endOf c - start r) (kind r))
          (ranges c) = Inr inner" and
    o: "insertRange (BodyRange (endOf c) (len r - (endOf c - start r)) (kind r)) rest = Inr rest'" and
    t': "t' = RangeNode (body c) inner # rest'"
    by (auto simp: insertRange_IntersectsEnding split: sum.splits)
  show ?case
  proof (cases "p < endOf c")
    case True
    then show ?thesis
      using IntersectsEnding.IH(1) [OF i, of "p - start (body c)"] IntersectsEnding.prems t'
      by simp
  next
    case False
    then show ?thesis
      using IntersectsEnding.IH(2) [OF o, of p] IntersectsEnding.prems t' by simp
  qed
qed

lemma covered_insertRange_old:
  "insertRange r t = Inr t' \<Longrightarrow> covered k p t \<Longrightarrow> covered k p t'"
proof (induction r t arbitrary: t' p rule: insertRange_induct)
  case (Nil r)
  then show ?case by auto
next
  case (EndsBefore r c rest)
  then show ?case by (auto simp: insertRange_EndsBefore)
next
  case (StartsAfter r c rest)
  then show ?case by (auto simp: insertRange_StartsAfter split: sum.splits)
next
  case (Contained r c rest)
  then show ?case by (auto simp: insertRange_Contained split: sum.splits)
next
  case (Contains r c rest)
  then show ?case by (auto simp: insertRange_Contains split: sum.splits)
next
  case (IntersectsBeginning r c rest)
  then show ?case by (auto simp: insertRange_IntersectsBeginning split: sum.splits)
next
  case (IntersectsEnding r c rest)
  then show ?case by (auto simp: insertRange_IntersectsEnding split: sum.splits)
qed

lemma insertRanges_covered_old:
  "insertRanges rs t = Inr t' \<Longrightarrow> covered k p t \<Longrightarrow> covered k p t'"
proof (induction rs arbitrary: t)
  case Nil
  then show ?case by simp
next
  case (Cons r rs)
  then show ?case by (auto split: sum.splits dest: covered_insertRange_old)
qed

lemma insertRanges_total: "\<exists>t'. insertRanges rs t = Inr t'"
proof (induction rs arbitrary: t)
  case Nil
  show ?case by simp
next
  case (Cons r rs)
  obtain t1 where "insertRange r t = Inr t1" using insertRange_total by blast
  with Cons [of t1] show ?case by simp
qed

lemma insertRanges_covered:
  "insertRanges rs t = Inr t' \<Longrightarrow> r \<in> set rs \<Longrightarrow> start r \<le> p \<Longrightarrow> p < start r + len r \<Longrightarrow>
   covered (kind r) p t'"
proof (induction rs arbitrary: t)
  case Nil
  then show ?case by simp
next
  case (Cons a rs)
  from Cons.prems(1) obtain t1 where a: "insertRange a t = Inr t1" and
    rest: "insertRanges rs t1 = Inr t'"
    by (auto split: sum.splits)
  show ?case
  proof (cases "r = a")
    case True
    with a Cons.prems have "covered (kind r) p t1" by (auto intro: covered_insertRange_new)
    with rest show ?thesis by (rule insertRanges_covered_old)
  next
    case False
    with Cons.prems have "r \<in> set rs" by simp
    from Cons.IH [OF rest this Cons.prems(3,4)] show ?thesis .
  qed
qed

subsection \<open>The six cases are exhaustive\<close>

text \<open>
  C4. For a range with non-negative start and length and a well-formed forest, exactly one
  of the six cases of \<open>insertRange\<close> is selected for the head node, and the call
  returns a forest: the final \<open>unhandled range\<close> throw is not reached. Boundary equality
  is non-overlap: a range ending exactly where the head starts is prepended as a leaf, and
  a range starting exactly where the head ends never enters a splitting case.
\<close>

theorem insertRange_cases_exhaustive:
  assumes "0 \<le> start rng" and "0 \<le> len rng" and "wellFormedForest rangeTree"
  shows "(\<exists>t'. insertRange rng rangeTree = Inr t') \<and>
         insertRange rng rangeTree \<noteq> Inl UnhandledRange \<and>
         (\<forall>current rest. rangeTree = current # rest \<longrightarrow>
            (\<exists>!c. c \<noteq> Unhandled \<and> insertCase rng current = c) \<and>
            (start rng + len rng = start (body current) \<longrightarrow>
               insertCase rng current = EndsBefore) \<and>
            (start rng = endOf current \<longrightarrow>
               insertCase rng current \<in> {EndsBefore, StartsAfter}))"
proof -
  obtain t' where t': "insertRange rng rangeTree = Inr t'"
    using insertRange_total by blast
  have one: "\<exists>!c. c \<noteq> Unhandled \<and> insertCase rng current = c" for current
    using insertCase_cases(7) [of rng current] by auto
  have before: "start rng + len rng = start (body current) \<Longrightarrow>
      insertCase rng current = EndsBefore" for current
    by (simp add: insertCase_cases(1))
  have after: "start rng = endOf current \<Longrightarrow>
      insertCase rng current \<in> {EndsBefore, StartsAfter}" for current
    by (cases "start rng + len rng \<le> start (body current)")
      (simp_all add: insertCase_cases(1,2))
  from t' one before after show ?thesis by simp
qed

theorem insertRange_cases_exhaustive_witness:
  "wellFormedForest [RangeNode (BodyRange 0 5 (Formatting BOLD None)) []] \<and>
   (\<exists>t'. insertRange (BodyRange 3 5 (Formatting ITALIC None))
           [RangeNode (BodyRange 0 5 (Formatting BOLD None)) []] = Inr t') \<and>
   insertCase (BodyRange 3 5 (Formatting ITALIC None))
     (RangeNode (BodyRange 0 5 (Formatting BOLD None)) []) = IntersectsEnding"
proof -
  have wf: "wellFormedForest [RangeNode (BodyRange 0 5 (Formatting BOLD None)) []]"
    by (simp add: wellFormedForest_def siblingsOrdered_def)
  have c: "insertCase (BodyRange 3 5 (Formatting ITALIC None))
     (RangeNode (BodyRange 0 5 (Formatting BOLD None)) []) = IntersectsEnding"
    by (simp add: insertCase_def)
  from insertRange_cases_exhaustive
         [of "BodyRange 3 5 (Formatting ITALIC None)"
             "[RangeNode (BodyRange 0 5 (Formatting BOLD None)) []]", OF _ _ wf]
  have "\<exists>t'. insertRange (BodyRange 3 5 (Formatting ITALIC None))
           [RangeNode (BodyRange 0 5 (Formatting BOLD None)) []] = Inr t'"
    by simp
  with wf c show ?thesis by simp
qed

subsection \<open>Insertion preserves well-formedness\<close>

text \<open>
  C2. For a range with non-negative start and length, if the forest has its siblings at
  every level sorted ascending by start and pairwise non-overlapping, and every child
  within its parent's span, then \<open>insertRange\<close> returns a forest, and that forest
  satisfies the same invariant.
\<close>

theorem insertRange_preserves_wellFormed:
  assumes "0 \<le> start rng" and "0 \<le> len rng" and "wellFormedForest rangeTree"
  shows "\<exists>t'. insertRange rng rangeTree = Inr t' \<and> wellFormedForest t'"
  using assms by (intro insertRange_wellFormedForest)

theorem insertRange_preserves_wellFormed_witness:
  "wellFormedForest
     [RangeNode (BodyRange 0 5 (Formatting BOLD None))
        [RangeNode (BodyRange 1 2 (Formatting MONOSPACE None)) []],
      RangeNode (BodyRange 7 3 (Formatting SPOILER (Some 1))) []] \<and>
   (\<exists>t'. insertRange (BodyRange 2 9 (Formatting ITALIC None))
      [RangeNode (BodyRange 0 5 (Formatting BOLD None))
         [RangeNode (BodyRange 1 2 (Formatting MONOSPACE None)) []],
       RangeNode (BodyRange 7 3 (Formatting SPOILER (Some 1))) []] = Inr t' \<and>
      wellFormedForest t')"
proof -
  have wf: "wellFormedForest
     [RangeNode (BodyRange 0 5 (Formatting BOLD None))
        [RangeNode (BodyRange 1 2 (Formatting MONOSPACE None)) []],
      RangeNode (BodyRange 7 3 (Formatting SPOILER (Some 1))) []]"
    by (simp add: wellFormedForest_def siblingsOrdered_def)
  from insertRange_preserves_wellFormed [OF _ _ wf, of "BodyRange 2 9 (Formatting ITALIC None)"]
    wf
  show ?thesis by simp
qed

subsection \<open>No loss on insertion\<close>

text \<open>
  C3. For every sequence of ranges with non-negative start and length, inserted one at a
  time from the empty forest, the insertions return a forest, and every position that an
  inserted range covers is covered in that forest by a node carrying the range's kind
  (the range itself or one of the fragments it was split into).
\<close>

theorem insertRanges_no_loss:
  assumes "\<forall>r \<in> set rngs. 0 \<le> start r \<and> 0 \<le> len r"
  shows "\<exists>forest. insertRanges rngs [] = Inr forest \<and>
           (\<forall>r \<in> set rngs. \<forall>p. start r \<le> p \<and> p < start r + len r \<longrightarrow>
              covered (kind r) p forest)"
proof -
  obtain forest where f: "insertRanges rngs [] = Inr forest"
    using insertRanges_total by blast
  then have "\<forall>r \<in> set rngs. \<forall>p. start r \<le> p \<and> p < start r + len r \<longrightarrow>
      covered (kind r) p forest"
    by (blast intro: insertRanges_covered)
  with f show ?thesis by blast
qed

theorem insertRanges_no_loss_witness:
  "\<exists>forest.
     insertRanges [BodyRange 0 5 (Formatting BOLD None), BodyRange 3 5 (Formatting ITALIC None)]
       [] = Inr forest \<and>
     covered (Formatting BOLD None) 4 forest \<and>
     covered (Formatting ITALIC None) 3 forest \<and>
     covered (Formatting ITALIC None) 7 forest"
proof -
  have h: "\<forall>r \<in> set [BodyRange 0 5 (Formatting BOLD None),
                       BodyRange 3 5 (Formatting ITALIC None)]. 0 \<le> start r \<and> 0 \<le> len r"
    by simp
  from insertRanges_no_loss [OF h] obtain forest where
    f: "insertRanges [BodyRange 0 5 (Formatting BOLD None),
                      BodyRange 3 5 (Formatting ITALIC None)] [] = Inr forest" and
    c: "\<forall>r \<in> set [BodyRange 0 5 (Formatting BOLD None),
                       BodyRange 3 5 (Formatting ITALIC None)].
          \<forall>p. start r \<le> p \<and> p < start r + len r \<longrightarrow> covered (kind r) p forest"
    by blast
  from c have "covered (Formatting BOLD None) 4 forest"
    "covered (Formatting ITALIC None) 3 forest" "covered (Formatting ITALIC None) 7 forest"
    by simp_all
  with f show ?thesis by blast
qed

section \<open>Properties of the Tree Collapser\<close>

lemma jsSlice_nonneg:
  "0 \<le> a \<Longrightarrow> a \<le> b \<Longrightarrow> jsSlice s a b = take (nat b - nat a) (drop (nat a) s)"
  by (auto simp: jsSlice_def Let_def min_def nat_diff_distrib)

lemma jsSlice_append:
  assumes "0 \<le> a" "a \<le> b" "b \<le> c"
  shows "jsSlice s a b @ jsSlice s b c = jsSlice s a c"
proof -
  have "take (nat b - nat a) (drop (nat a) s) @ take (nat c - nat b) (drop (nat b) s)
        = take (nat c - nat a) (drop (nat a) s)"
    using assms take_add [of "nat b - nat a" "nat c - nat b" "drop (nat a) s"]
    by (simp add: nat_le_eq_zle)
  with assms show ?thesis by (simp add: jsSlice_nonneg)
qed

lemma jsSlice_whole: "int (length s) \<le> b \<Longrightarrow> jsSlice s 0 b = s"
  by (simp add: jsSlice_def)

lemma jsSlice_empty: "jsSlice s a a = []"
  by (simp add: jsSlice_def Let_def)


declare collapseRangeTree.simps [simp del]

lemma nodeText_displayNode [simp]: "nodeText (displayNode pd t s l ms) = t"
  by (simp add: displayNode_def PartialDisplayNode.extend_def DisplayNode.fields_def)

lemma rangeToPartialNode_total:
  "\<not> isMention b \<Longrightarrow> \<exists>p. rangeToPartialNode b = Inr p"
  by (induction b rule: rangeToPartialNode.induct) simp_all

lemma within_mono: "within lo hi t \<Longrightarrow> lo' \<le> lo \<Longrightarrow> within lo' hi t"
  by (cases t) auto

lemma collapse_from_forEach:
  assumes "forEachRange pd po tx tree ([], 0, []) = Inr (c', o', p')"
    and "0 \<le> o'"
    and "concat (map nodeText c') = jsSlice tx 0 o'"
  shows "\<exists>out. collapseRangeTree pd po tx tree = Inr out \<and> concat (map nodeText out) = tx"
proof (cases "int (length tx) > o'")
  case True
  then have "jsSlice tx 0 o' @ jsSlice tx o' (int (length tx)) = tx"
    using assms(2) by (simp add: jsSlice_append jsSlice_whole)
  with True assms show ?thesis by (simp add: collapseRangeTree.simps)
next
  case False
  then have "jsSlice tx 0 o' = tx" by (simp add: jsSlice_whole)
  with False assms show ?thesis by (simp add: collapseRangeTree.simps)
qed

lemma forEachRange_text:
  "within offset hi tree \<Longrightarrow> 0 \<le> offset \<Longrightarrow>
   \<exists>c' o' p'. forEachRange pd po tx tree (collapsed, offset, pending) = Inr (c', o', p') \<and>
      offset \<le> o' \<and>
      concat (map nodeText c') = concat (map nodeText collapsed) @ jsSlice tx offset o'"
proof (induction tree arbitrary: offset hi pd po tx collapsed pending
    rule: measure_induct_rule [where f = "size_list size"])
  case (less tree)
  show ?case
  proof (cases tree)
    case Nil
    then show ?thesis by (simp add: jsSlice_empty)
  next
    case (Cons rng rest)
    with less.prems have s: "offset \<le> start (body rng)" and l: "0 \<le> len (body rng)"
      and inner: "within 0 (len (body rng)) (ranges rng)"
      and outer: "within (endOf rng) hi rest"
      by simp_all
    show ?thesis
    proof (cases "isMention (body rng)")
      case True
      from outer s l have "within offset hi rest" by (intro within_mono [OF outer]) simp
      from less.IH [OF _ this less.prems(2), of pd po tx collapsed
          "pending @ [BodyRange (start (body rng) - offset) (len (body rng)) (kind (body rng))]"]
      show ?thesis using True Cons by simp
    next
      case False
      then obtain contribution where c: "rangeToPartialNode (body rng) = Inr contribution"
        using rangeToPartialNode_total by blast
      let ?sub = "jsSlice tx (start (body rng)) (endOf rng)"
      have small: "size_list size (ranges rng) < size_list size tree"
        using Cons size_ranges [of rng rest] by simp
      from less.IH [OF small inner, of "spread pd contribution" "start (body rng) + po" ?sub
          "[]" "[]"]
      obtain c1 o1 p1 where
        f: "forEachRange (spread pd contribution) (start (body rng) + po) ?sub (ranges rng)
              ([], 0, []) = Inr (c1, o1, p1)" and
        o1: "0 \<le> o1" and t1: "concat (map nodeText c1) = jsSlice ?sub 0 o1"
        by auto
      from collapse_from_forEach [OF f o1 t1] obtain sub where
        sub: "collapseRangeTree (spread pd contribution) (start (body rng) + po) ?sub
                (ranges rng) = Inr sub" and
        st: "concat (map nodeText sub) = ?sub"
        by blast
      have e: "0 \<le> endOf rng" using s l less.prems(2) by linarith
      define collapsed1 where "collapsed1 =
        (if start (body rng) > offset then
           collapsed @ [displayNode pd (jsSlice tx offset (start (body rng)))
                          (offset + po) (start (body rng) - offset) pending]
         else collapsed)"
      define pending1 where "pending1 = (if start (body rng) > offset then [] else pending)"
      have gap: "concat (map nodeText collapsed1) =
          concat (map nodeText collapsed) @ jsSlice tx offset (start (body rng))"
        using s by (auto simp: collapsed1_def jsSlice_empty)
      have small2: "size_list size rest < size_list size tree" using Cons by simp
      from less.IH [OF small2 outer e, of pd po tx "collapsed1 @ sub" pending1]
      obtain c' o' p' where
        r: "forEachRange pd po tx rest (collapsed1 @ sub, endOf rng, pending1) = Inr (c', o', p')"
        and o': "endOf rng \<le> o'"
        and t': "concat (map nodeText c') =
                 concat (map nodeText (collapsed1 @ sub)) @ jsSlice tx (endOf rng) o'"
        by blast
      have step: "forEachRange pd po tx tree (collapsed, offset, pending) = Inr (c', o', p')"
        using Cons False c sub r
        by (cases "offset < start (body rng)") (simp_all add: collapsed1_def pending1_def)
      have "jsSlice tx offset (start (body rng)) @ ?sub @ jsSlice tx (endOf rng) o'
            = jsSlice tx offset o'"
        using s l o' less.prems(2) by (simp add: jsSlice_append)
      with t' gap st have "concat (map nodeText c') =
          concat (map nodeText collapsed) @ jsSlice tx offset o'"
        by simp
      with step o' s l show ?thesis by auto
    qed
  qed
qed

lemma collapseRangeTree_text:
  assumes "within 0 hi tree"
  shows "\<exists>out. collapseRangeTree pd po tx tree = Inr out \<and> concat (map nodeText out) = tx"
proof -
  from forEachRange_text [OF assms, of pd po tx "[]" "[]"]
  obtain c' o' p' where "forEachRange pd po tx tree ([], 0, []) = Inr (c', o', p')"
    "0 \<le> o'" "concat (map nodeText c') = jsSlice tx 0 o'"
    by auto
  then show ?thesis by (rule collapse_from_forEach)
qed

lemma body_clearMentionChildren [simp]: "body (clearMentionChildren n) = body n"
  by (cases n) simp

lemma ranges_clearMentionChildren:
  "ranges (clearMentionChildren n) =
     (if isMention (body n) then [] else map clearMentionChildren (ranges n))"
  by (cases n) simp

lemma forEachRange_clearMentionChildren:
  "forEachRange pd po tx (map clearMentionChildren tree) st = forEachRange pd po tx tree st"
proof (induction tree arbitrary: pd po tx st
    rule: measure_induct_rule [where f = "size_list size"])
  case (less tree)
  show ?case
  proof (cases tree)
    case Nil
    then show ?thesis by simp
  next
    case (Cons rng rest)
    obtain collapsed offset pending where st: "st = (collapsed, offset, pending)"
      by (cases st) auto
    have rest: "forEachRange pd po tx (map clearMentionChildren rest) st' =
        forEachRange pd po tx rest st'" for st'
      using less.IH [of rest] Cons by simp
    show ?thesis
    proof (cases "isMention (body rng)")
      case True
      then show ?thesis using Cons st rest by simp
    next
      case False
      have "size_list size (ranges rng) < size_list size tree"
        using Cons size_ranges [of rng rest] by simp
      from less.IH [OF this]
      have "collapseRangeTree pd' po' tx' (map clearMentionChildren (ranges rng)) =
          collapseRangeTree pd' po' tx' (ranges rng)" for pd' po' tx'
        by (simp add: collapseRangeTree.simps)
      then show ?thesis
        using False Cons st rest
        by (simp add: ranges_clearMentionChildren cong: sum.case_cong)
    qed
  qed
qed

lemma wellFormedForest_within: "wellFormedForest t \<Longrightarrow> \<exists>hi. within 0 hi t"
proof -
  assume wf: "wellFormedForest t"
  obtain hi where h: "\<forall>c \<in> set t. endOf c \<le> hi" using ends_bounded [of t endOf] by blast
  have "\<forall>c \<in> set t. 0 \<le> start (body c)"
    using wf by (auto simp: wellFormedForest_def list_all_iff wellFormed_start)
  with wf h have "within 0 hi t"
    by (intro wellFormed_within) (auto simp: wellFormedForest_def)
  then show ?thesis by blast
qed

subsection \<open>Coverage\<close>

text \<open>
  C1. For every text and every well-formed range tree (siblings sorted ascending by start
  and non-overlapping at every level, each child within its parent's span),
  \<open>collapseRangeTree\<close> returns display nodes, and the concatenation of their texts in
  output order is the input text.
\<close>

theorem collapseRangeTree_coverage:
  assumes "wellFormedForest tree"
  shows "\<exists>out. collapseRangeTree parentData parentOffset tx tree = Inr out \<and>
           concat (map nodeText out) = tx"
proof -
  from assms obtain hi where "within 0 hi tree"
    using wellFormedForest_within by blast
  then show ?thesis by (rule collapseRangeTree_text)
qed

theorem collapseRangeTree_coverage_witness:
  "wellFormedForest
     [RangeNode (BodyRange 0 5 (Formatting BOLD None))
        [RangeNode (BodyRange 3 2 (Formatting ITALIC None)) []],
      RangeNode (BodyRange 5 3 (Formatting ITALIC None)) []] \<and>
   (\<exists>out. collapseRangeTree emptyObject 0 ''hello world''
       [RangeNode (BodyRange 0 5 (Formatting BOLD None))
          [RangeNode (BodyRange 3 2 (Formatting ITALIC None)) []],
        RangeNode (BodyRange 5 3 (Formatting ITALIC None)) []] = Inr out \<and>
      concat (map nodeText out) = ''hello world'')"
proof -
  have wf: "wellFormedForest
     [RangeNode (BodyRange 0 5 (Formatting BOLD None))
        [RangeNode (BodyRange 3 2 (Formatting ITALIC None)) []],
      RangeNode (BodyRange 5 3 (Formatting ITALIC None)) []]"
    by (simp add: wellFormedForest_def siblingsOrdered_def)
  from collapseRangeTree_coverage [OF wf, of emptyObject 0 "''hello world''"] wf
  show ?thesis by blast
qed

subsection \<open>The overlap example\<close>

text \<open>
  C7. For the text \<open>hello world\<close>, inserting a BOLD range \<open>[0,5)\<close> and then an ITALIC range
  \<open>[3,8)\<close> into the empty tree and collapsing the result gives four segments in order:
  \<open>hel\<close> with only the bold flag, \<open>lo\<close> with the bold and italic flags, \<open> wo\<close> with only
  the italic flag and \<open>rld\<close> with no flag.
\<close>

theorem overlap_example:
  "insertRanges
     [BodyRange 0 5 (Formatting BOLD None), BodyRange 3 5 (Formatting ITALIC None)] []
   = Inr [RangeNode (BodyRange 0 5 (Formatting BOLD None))
            [RangeNode (BodyRange 3 2 (Formatting ITALIC None)) []],
          RangeNode (BodyRange 5 3 (Formatting ITALIC None)) []] \<and>
   collapseRangeTree emptyObject 0 ''hello world''
     [RangeNode (BodyRange 0 5 (Formatting BOLD None))
        [RangeNode (BodyRange 3 2 (Formatting ITALIC None)) []],
      RangeNode (BodyRange 5 3 (Formatting ITALIC None)) []]
   = Inr [\<lparr>isBold = Some True, isItalic = None, isMonospace = None, isSpoiler = None,
            isStrikethrough = None, url = None, isKeywordHighlight = None,
            spoilerId = None,
            nodeText = ''hel'', nodeStart = 0, nodeLength = 3, mentions = []\<rparr>,
          \<lparr>isBold = Some True, isItalic = Some True, isMonospace = None, isSpoiler = None,
            isStrikethrough = None, url = None, isKeywordHighlight = None,
            spoilerId = None,
            nodeText = ''lo'', nodeStart = 3, nodeLength = 2, mentions = []\<rparr>,
          \<lparr>isBold = None, isItalic = Some True, isMonospace = None, isSpoiler = None,
            isStrikethrough = None, url = None, isKeywordHighlight = None,
            spoilerId = None,
            nodeText = '' wo'', nodeStart = 5, nodeLength = 3, mentions = []\<rparr>,
          \<lparr>isBold = None, isItalic = None, isMonospace = None, isSpoiler = None,
            isStrikethrough = None, url = None, isKeywordHighlight = None,
            spoilerId = None,
            nodeText = ''rld'', nodeStart = 8, nodeLength = 3, mentions = []\<rparr>]"
  by (simp add: insertRange.simps(2) collapseRangeTree.simps jsSlice_def spread_def
      override_def emptyObject_def displayNode_def PartialDisplayNode.extend_def
      DisplayNode.fields_def)

subsection \<open>Children of mention nodes\<close>

text \<open>
  C10. \<open>collapseRangeTree\<close> ignores the children of mention nodes. A mention node is
  recorded as a pending mention, its start rebased by the cursor, without emitting a
  segment and without moving the cursor; so the output for a tree is the output for the
  same tree with the children of every mention node removed.
\<close>

theorem collapseRangeTree_ignores_mention_children:
  "collapseRangeTree parentData parentOffset tx (map clearMentionChildren tree) =
     collapseRangeTree parentData parentOffset tx tree \<and>
   (isMention (body rng) \<longrightarrow>
      forEachRange parentData parentOffset tx (rng # rest) (collapsed, offset, pending) =
      forEachRange parentData parentOffset tx rest
        (collapsed, offset,
         pending @ [BodyRange (start (body rng) - offset) (len (body rng)) (kind (body rng))]))"
  by (simp add: collapseRangeTree.simps forEachRange_clearMentionChildren)

theorem collapseRangeTree_ignores_mention_children_witness:
  "isMention (BodyRange 3 1 (Mention ''uuid'' ''conv'' ''Bob'')) \<and>
   collapseRangeTree emptyObject 0 ''ab cd''
     [RangeNode (BodyRange 0 2 (Formatting ITALIC None)) [],
      RangeNode (BodyRange 3 1 (Mention ''uuid'' ''conv'' ''Bob''))
        [RangeNode (BodyRange 0 1 (Formatting BOLD None)) []]]
   = collapseRangeTree emptyObject 0 ''ab cd''
     [RangeNode (BodyRange 0 2 (Formatting ITALIC None)) [],
      RangeNode (BodyRange 3 1 (Mention ''uuid'' ''conv'' ''Bob'')) []] \<and>
   forEachRange emptyObject 0 ''ab cd''
     [RangeNode (BodyRange 3 1 (Mention ''uuid'' ''conv'' ''Bob''))
        [RangeNode (BodyRange 0 1 (Formatting BOLD None)) []]]
     ([], 2, [])
   = Inr ([], 2, [BodyRange 1 1 (Mention ''uuid'' ''conv'' ''Bob'')])"
  using collapseRangeTree_ignores_mention_children
    [of emptyObject 0 "''ab cd''"
      "[RangeNode (BodyRange 0 2 (Formatting ITALIC None)) [],
        RangeNode (BodyRange 3 1 (Mention ''uuid'' ''conv'' ''Bob''))
          [RangeNode (BodyRange 0 1 (Formatting BOLD None)) []]]"
      "RangeNode (BodyRange 3 1 (Mention ''uuid'' ''conv'' ''Bob''))
          [RangeNode (BodyRange 0 1 (Formatting BOLD None)) []]"
      "[]" "[]" 2 "[]"]
  by simp

section \<open>Properties of the Range Filter\<close>

lemma kept_Nil [simp]: "keptRanges counts [] = []"
  by (simp add: keptRanges_def)

lemma kept_mention:
  "isMentionRange r \<Longrightarrow>
   keptRanges counts (r # rs) =
     (if MAX_PER_TYPE \<le> counts MENTION_NAME
      then keptRanges (counts(MENTION_NAME := counts MENTION_NAME + 1)) rs
      else r # keptRanges (counts(MENTION_NAME := counts MENTION_NAME + 1)) rs)"
  by (simp add: keptRanges_def isMentionRange_def Let_def split: prod.splits)

lemma kept_style:
  "isNumber (rawStart r) \<Longrightarrow> isNumber (rawLength r) \<Longrightarrow> \<not> truthyString (rawMentionUuid r) \<Longrightarrow>
   truthyStyle (rawStyle r) = Some s \<Longrightarrow>
   keptRanges counts (r # rs) =
     (if MAX_PER_TYPE \<le> counts (StyleKey s)
      then keptRanges (counts(StyleKey s := counts (StyleKey s) + 1)) rs
      else r # keptRanges (counts(StyleKey s := counts (StyleKey s) + 1)) rs)"
  by (simp add: keptRanges_def Let_def split: prod.splits)

lemma kept_dropped:
  "\<not> isNumber (rawStart r) \<or> \<not> isNumber (rawLength r) \<or>
   (\<not> truthyString (rawMentionUuid r) \<and> truthyStyle (rawStyle r) = None) \<Longrightarrow>
   keptRanges counts (r # rs) = keptRanges counts rs"
  by (auto simp: keptRanges_def Let_def split: prod.splits)

lemma kept_cases:
  obtains (mention) "isMentionRange r"
  | (style) s where "isNumber (rawStart r)" "isNumber (rawLength r)"
      "\<not> truthyString (rawMentionUuid r)" "truthyStyle (rawStyle r) = Some s"
  | (dropped) "\<not> isNumber (rawStart r) \<or> \<not> isNumber (rawLength r) \<or>
      (\<not> truthyString (rawMentionUuid r) \<and> truthyStyle (rawStyle r) = None)"
  by (cases "truthyStyle (rawStyle r)") (auto simp: isMentionRange_def)

lemma truthyStyle_BOLD: "truthyStyle (rawStyle r) = Some BOLD \<longleftrightarrow> rawStyle r = Some BOLD"
  by (auto simp: truthyStyle_def split: option.splits if_splits)

lemma kept_mentions:
  "filter isMentionRange (keptRanges counts rs) =
     take (MAX_PER_TYPE - counts MENTION_NAME) (filter isMentionRange rs)"
proof (induction rs arbitrary: counts)
  case Nil
  show ?case by simp
next
  case (Cons r rs)
  show ?case
  proof (cases r rule: kept_cases)
    case mention
    then show ?thesis
      by (simp add: kept_mention Cons.IH take_Cons' Suc_diff_le)
  next
    case (style s)
    then have "\<not> isMentionRange r" by (simp add: isMentionRange_def)
    with style show ?thesis by (simp add: kept_style Cons.IH)
  next
    case dropped
    then have "\<not> isMentionRange r" by (auto simp: isMentionRange_def)
    with dropped show ?thesis by (simp add: kept_dropped Cons.IH)
  qed
qed

lemma kept_bold:
  "filter isBoldRange (keptRanges counts rs) =
     take (MAX_PER_TYPE - counts (StyleKey BOLD)) (filter isBoldRange rs)"
proof (induction rs arbitrary: counts)
  case Nil
  show ?case by simp
next
  case (Cons r rs)
  show ?case
  proof (cases r rule: kept_cases)
    case mention
    then have "\<not> isBoldRange r" by (simp add: isMentionRange_def isBoldRange_def)
    with mention show ?thesis by (simp add: kept_mention Cons.IH)
  next
    case (style s)
    show ?thesis
    proof (cases "s = BOLD")
      case True
      with style have "isBoldRange r" by (simp add: isBoldRange_def truthyStyle_BOLD)
      with style True show ?thesis
        by (simp add: kept_style Cons.IH take_Cons' Suc_diff_le)
    next
      case False
      with style have "\<not> isBoldRange r"
        using truthyStyle_BOLD [of r] by (auto simp: isBoldRange_def)
      with style False show ?thesis by (simp add: kept_style Cons.IH)
    qed
  next
    case dropped
    then have "\<not> isBoldRange r" by (auto simp: isBoldRange_def truthyStyle_def)
    with dropped show ?thesis by (simp add: kept_dropped Cons.IH)
  qed
qed

lemma kept_subseq: "subseq (keptRanges counts rs) rs"
proof (induction rs arbitrary: counts)
  case Nil
  show ?case by simp
next
  case (Cons r rs)
  show ?case
    by (cases r rule: kept_cases)
      (auto simp: kept_mention kept_style kept_dropped Cons.IH intro: subseq_Cons')
qed

lemma kept_append:
  "\<exists>counts'. keptRanges counts (xs @ ys) = keptRanges counts xs @ keptRanges counts' ys"
proof (induction xs arbitrary: counts)
  case Nil
  show ?case by auto
next
  case (Cons r xs)
  have step:
    "\<exists>counts'. keptRanges c (r # xs @ ys) = keptRanges c (r # xs) @ keptRanges counts' ys"
    if "keptRanges c (r # xs @ ys) = keptRanges c1 (xs @ ys) \<and>
          keptRanges c (r # xs) = keptRanges c1 xs \<or>
        keptRanges c (r # xs @ ys) = r # keptRanges c1 (xs @ ys) \<and>
          keptRanges c (r # xs) = r # keptRanges c1 xs"
    for c c1
  proof -
    obtain c' where "keptRanges c1 (xs @ ys) = keptRanges c1 xs @ keptRanges c' ys"
      using Cons.IH by blast
    with that show ?thesis by auto
  qed
  show ?case
  proof (cases r rule: kept_cases)
    case mention
    show ?thesis
      unfolding append_Cons
      by (rule step [of _ "counts(MENTION_NAME := counts MENTION_NAME + 1)"])
        (simp add: kept_mention [OF mention])
  next
    case (style s)
    show ?thesis
      unfolding append_Cons
      by (rule step [of _ "counts(StyleKey s := counts (StyleKey s) + 1)"])
        (simp add: kept_style [OF style])
  next
    case dropped
    show ?thesis
      unfolding append_Cons
      by (rule step [of _ counts]) (simp add: kept_dropped [OF dropped])
  qed
qed


lemma filterAndClean_kept: "filterAndClean (Some rs) = Some (keptRanges countByTypeRecord rs)"
  by (simp add: filterAndClean_def keptRanges_def)

subsection \<open>Cap enforcement\<close>

text \<open>
  C6. For an input of 300 mention ranges and 300 BOLD ranges, in any order, all with
  numeric start and length, \<open>filterAndClean\<close> returns exactly 250 mention ranges and
  exactly 250 BOLD ranges: the first 250 of each category in input order. The output is a
  subsequence of the input, and it stays a prefix of the output when more ranges are
  appended to the input, so later items never displace accepted ones.
\<close>

theorem filterAndClean_cap:
  assumes "\<forall>r \<in> set rs. isMentionRange r \<or> isBoldRange r"
    and "length (filter isMentionRange rs) = 300"
    and "length (filter isBoldRange rs) = 300"
  shows "\<exists>out. filterAndClean (Some rs) = Some out \<and>
           filter isMentionRange out = take 250 (filter isMentionRange rs) \<and>
           filter isBoldRange out = take 250 (filter isBoldRange rs) \<and>
           length (filter isMentionRange out) = 250 \<and>
           length (filter isBoldRange out) = 250 \<and>
           length out = 500 \<and>
           subseq out rs \<and>
           (\<forall>more. \<exists>out'. filterAndClean (Some (rs @ more)) = Some out' \<and> prefix out out')"
proof -
  let ?out = "keptRanges countByTypeRecord rs"
  have m: "filter isMentionRange ?out = take 250 (filter isMentionRange rs)"
    by (simp add: kept_mentions MAX_PER_TYPE_def countByTypeRecord_def)
  have b: "filter isBoldRange ?out = take 250 (filter isBoldRange rs)"
    by (simp add: kept_bold MAX_PER_TYPE_def countByTypeRecord_def)
  have lm: "length (filter isMentionRange ?out) = 250" using assms(2) by (simp add: m)
  have lb: "length (filter isBoldRange ?out) = 250" using assms(3) by (simp add: b)
  have sub: "subseq ?out rs" by (rule kept_subseq)
  have "x \<in> set rs" if "x \<in> set ?out" for x
    using list_emb_set [OF sub that] by auto
  with assms(1) have all: "\<forall>r \<in> set ?out. isMentionRange r \<or> isBoldRange r"
    by blast
  have "filter (\<lambda>r. \<not> isMentionRange r) ?out = filter isBoldRange ?out"
    using all by (intro filter_cong) (auto simp: isMentionRange_def isBoldRange_def)
  with sum_length_filter_compl [of isMentionRange ?out] lm lb
  have len: "length ?out = 500" by simp
  have pre: "\<exists>out'. filterAndClean (Some (rs @ more)) = Some out' \<and> prefix ?out out'" for more
    using kept_append [of countByTypeRecord rs more]
    by (auto simp: filterAndClean_kept)
  from m b lm lb len sub pre show ?thesis by (simp add: filterAndClean_kept)
qed

theorem filterAndClean_cap_witness:
  "length (filter isMentionRange
      (replicate 300 \<lparr>rawStart = Some 0, rawLength = Some 1,
                       rawMentionUuid = Some ''abc'', rawStyle = None\<rparr> @
       replicate 300 \<lparr>rawStart = Some 2, rawLength = Some 4,
                       rawMentionUuid = None, rawStyle = Some BOLD\<rparr>)) = 300 \<and>
   (\<exists>out. filterAndClean (Some
      (replicate 300 \<lparr>rawStart = Some 0, rawLength = Some 1,
                       rawMentionUuid = Some ''abc'', rawStyle = None\<rparr> @
       replicate 300 \<lparr>rawStart = Some 2, rawLength = Some 4,
                       rawMentionUuid = None, rawStyle = Some BOLD\<rparr>)) = Some out \<and>
      filter isMentionRange out =
        replicate 250 \<lparr>rawStart = Some 0, rawLength = Some 1,
                        rawMentionUuid = Some ''abc'', rawStyle = None\<rparr> \<and>
      filter isBoldRange out =
        replicate 250 \<lparr>rawStart = Some 2, rawLength = Some 4,
                        rawMentionUuid = None, rawStyle = Some BOLD\<rparr> \<and>
      length out = 500)"
proof -
  define m where "m = \<lparr>rawStart = Some 0, rawLength = Some 1,
                        rawMentionUuid = Some ''abc'', rawStyle = None\<rparr>"
  define b where "b = \<lparr>rawStart = Some 2, rawLength = Some 4,
                        rawMentionUuid = None, rawStyle = Some BOLD\<rparr>"
  have m: "isMentionRange m" "\<not> isBoldRange m"
    by (simp_all add: m_def isMentionRange_def isBoldRange_def isNumber_def truthyString_def)
  have b: "isBoldRange b" "\<not> isMentionRange b"
    by (simp_all add: b_def isMentionRange_def isBoldRange_def isNumber_def truthyString_def)
  have h1: "\<forall>r \<in> set (replicate 300 m @ replicate 300 b). isMentionRange r \<or> isBoldRange r"
    using m b by auto
  have h2: "length (filter isMentionRange (replicate 300 m @ replicate 300 b)) = 300"
    using m b by simp
  have h3: "length (filter isBoldRange (replicate 300 m @ replicate 300 b)) = 300"
    using m b by simp
  from filterAndClean_cap [OF h1 h2 h3] obtain out where
    o: "filterAndClean (Some (replicate 300 m @ replicate 300 b)) = Some out"
      "filter isMentionRange out =
         take 250 (filter isMentionRange (replicate 300 m @ replicate 300 b))"
      "filter isBoldRange out =
         take 250 (filter isBoldRange (replicate 300 m @ replicate 300 b))"
      "length out = 500"
    by blast
  from o(2) m b have om: "filter isMentionRange out = replicate 250 m" by simp
  from o(3) m b have ob: "filter isBoldRange out = replicate 250 b" by simp
  from h2 o(1) om ob o(4) show ?thesis unfolding m_def b_def by blast
qed

subsection \<open>The style NONE\<close>




section \<open>Properties of the Text Range Applier\<close>

text \<open>
  C8, as stated, fails: for the text \<open>a bc d\<close> with one mention at start 2 and length 1
  whose replacement text is \<open>Bob\<close> and no spoiler, the result is not \<open>a @Bob d\<close>.
\<close>

theorem mention_substitution_counterexample:
  "applyRangesForText (Some ''a bc d'') [BodyRange 2 1 (Mention ''uuid'' ''conv'' ''Bob'')] []
   \<noteq> Some ''a @Bob d''"
  by (simp add: applyRangesForText_def sortByStartDescending_def applyMention_def
      jsSlice_def jsSliceFrom_def)

text \<open>
  C8, amended. The mention replaces exactly the one code unit at offset 2, the \<open>b\<close>: the
  result is \<open>a @Bobc d\<close>.
\<close>

theorem mention_substitution:
  "applyRangesForText (Some ''a bc d'') [BodyRange 2 1 (Mention ''uuid'' ''conv'' ''Bob'')] []
   = Some ''a @Bobc d''"
  by (simp add: applyRangesForText_def sortByStartDescending_def applyMention_def
      jsSlice_def jsSliceFrom_def)

section \<open>Properties of the Snippet Range Mapper\<close>





end
